theory Spec2Isabelle
  imports Complex_Main "HOL-Library.Sublist" "HOL-Library.Log_Nat"
begin

section \<open>Detection post-processing of the YOLOv8 inference scripts\<close>

text \<open>
  The repository holds a Colab (Python) inference script and an Xcode (Swift) pipeline.
  Both are embedded here as HOL functions. Floating-point values (\<open>float\<close>,
  \<open>CGFloat\<close>) are rationals. In the resize and letterbox arithmetic every division
  and multiplication is followed by the rounding of IEEE double precision, so that the
  truncations see the values the code sees. The overlap of two boxes is a quotient of two
  integer areas that is only compared with the threshold; there the quotient is kept exact.
\<close>

subsection \<open>Boxes and overlap (Python: \<open>iou\<close>)\<close>

text \<open>
  A raw box is the tuple \<open>(x1, y1, x2, y2, cls)\<close> built by the inference loop.
\<close>

type_synonym box = "int \<times> int \<times> int \<times> int \<times> int"

text \<open>
  \<open>shapely.geometry.box(minx, miny, maxx, maxy)\<close> is a call into an external library.
  It is taken by its geometric meaning: the axis-parallel rectangle with these corners, here
  kept as (left, bottom, right, top). Areas of intersection and union are the areas of the
  corresponding point sets.
\<close>

type_synonym rectangle = "int \<times> int \<times> int \<times> int"

definition shapely_box :: "int \<Rightarrow> int \<Rightarrow> int \<Rightarrow> int \<Rightarrow> rectangle" where
  "shapely_box minx miny maxx maxy =
     (min minx maxx, min miny maxy, max minx maxx, max miny maxy)"

fun area :: "rectangle \<Rightarrow> int" where
  "area (xl, yl, xh, yh) = (xh - xl) * (yh - yl)"

fun intersection_area :: "rectangle \<Rightarrow> rectangle \<Rightarrow> int" where
  "intersection_area (axl, ayl, axh, ayh) (bxl, byl, bxh, byh) =
     max 0 (min axh bxh - max axl bxl) * max 0 (min ayh byh - max ayl byl)"

definition union_area :: "rectangle \<Rightarrow> rectangle \<Rightarrow> int" where
  "union_area a b = area a + area b - intersection_area a b"

text \<open>\<open>boxA[:4]\<close>: the four coordinates, the class label dropped.\<close>

fun first4 :: "box \<Rightarrow> rectangle" where
  "first4 (x1, y1, x2, y2, cls) = shapely_box x1 y1 x2 y2"

definition intersectionArea :: "box \<Rightarrow> box \<Rightarrow> int" where
  "intersectionArea boxA boxB = intersection_area (first4 boxA) (first4 boxB)"

definition unionArea :: "box \<Rightarrow> box \<Rightarrow> int" where
  "unionArea boxA boxB = union_area (first4 boxA) (first4 boxB)"

definition iou :: "box \<Rightarrow> box \<Rightarrow> rat" where
  "iou boxA boxB =
     (let inter = intersectionArea boxA boxB;
          union = unionArea boxA boxB
      in if union > 0 then of_int inter / of_int union else 0)"

subsection \<open>Greedy deduplication (Python: \<open>deduplicate_boxes\<close>)\<close>

text \<open>
  The inner loop: \<open>keep\<close> starts as True and becomes False at the first kept box whose
  overlap with the candidate exceeds the threshold.
\<close>

fun keep_box :: "box \<Rightarrow> box list \<Rightarrow> rat \<Rightarrow> bool" where
  "keep_box box [] iou_thresh = True"
| "keep_box box (kept # rest) iou_thresh =
     (if iou box kept > iou_thresh then False else keep_box box rest iou_thresh)"

text \<open>The outer loop, with \<open>final_boxes\<close> as the accumulator.\<close>

fun dedup_loop :: "box list \<Rightarrow> box list \<Rightarrow> rat \<Rightarrow> box list" where
  "dedup_loop [] final_boxes iou_thresh = final_boxes"
| "dedup_loop (box # boxes) final_boxes iou_thresh =
     dedup_loop boxes
       (if keep_box box final_boxes iou_thresh then final_boxes @ [box] else final_boxes)
       iou_thresh"

definition deduplicate_boxes :: "box list \<Rightarrow> rat \<Rightarrow> box list" where
  "deduplicate_boxes boxes iou_thresh = dedup_loop boxes [] iou_thresh"

text \<open>
  Position \<open>j\<close> of the input survives when its box passes the inner loop against what
  the outer loop has kept from the boxes before it.
\<close>

definition survives :: "box list \<Rightarrow> rat \<Rightarrow> nat \<Rightarrow> bool" where
  "survives boxes iou_thresh j \<longleftrightarrow>
     j < length boxes \<and>
     keep_box (boxes ! j) (deduplicate_boxes (take j boxes) iou_thresh) iou_thresh"

text \<open>A list in which no box overlaps an earlier one above the threshold.\<close>

definition separated :: "box list \<Rightarrow> rat \<Rightarrow> bool" where
  "separated boxes iou_thresh \<longleftrightarrow>
     (\<forall>j < length boxes. \<forall>i < j. iou (boxes ! j) (boxes ! i) \<le> iou_thresh)"

text \<open>The coordinates of a raw box, without its class label.\<close>

fun coords :: "box \<Rightarrow> int \<times> int \<times> int \<times> int" where
  "coords (x1, y1, x2, y2, cls) = (x1, y1, x2, y2)"

subsection \<open>Double-precision arithmetic\<close>

text \<open>
  A double has a significand of 53 bits. For a positive \<open>x\<close>, \<open>ilog2 x\<close> is the
  exponent \<open>e\<close> with \<open>2 powi e \<le> x < 2 powi (e + 1)\<close>, and \<open>fl x\<close> is the multiple of
  \<open>2 powi (e - 52)\<close> nearest to \<open>x\<close>, a tie going to the even multiple: the result of
  rounding \<open>x\<close> to a double. The exponent range of doubles is not modelled; the values
  met here are quotients and products of image sides. Integers below \<open>2 ^ 53\<close> are
  doubles, so the conversion of an image side to floating point is left implicit.
\<close>

definition ilog2 :: "rat \<Rightarrow> int" where
  "ilog2 x = (if 1 \<le> x then bitlen \<lfloor>x\<rfloor> - 1 else - bitlen (\<lceil>1 / x\<rceil> - 1))"

definition round_even :: "rat \<Rightarrow> int" where
  "round_even q =
     (let f = \<lfloor>q\<rfloor>; r = q - of_int f
      in if r < 1 / 2 then f else if 1 / 2 < r then f + 1 else if even f then f else f + 1)"

definition fl :: "rat \<Rightarrow> rat" where
  "fl x =
     (if x = 0 then 0
      else let u = 2 powi (ilog2 \<bar>x\<bar> - 52)
           in sgn x * of_int (round_even (\<bar>x\<bar> / u)) * u)"

subsection \<open>Resizing (Python: the two definitions of \<open>resize_bicubic_max_side\<close>)\<close>

datatype py_error = ZeroDivisionError | Cv2Error

text \<open>Python's \<open>int(x)\<close> on a float: truncation toward zero.\<close>

definition py_int :: "rat \<Rightarrow> int" where
  "py_int q = (if 0 \<le> q then \<lfloor>q\<rfloor> else \<lceil>q\<rceil>)"

text \<open>
  An image enters the resize functions only through \<open>img.shape[:2]\<close>, the pair
  (height, width), so it is modelled by that pair. \<open>cv2.resize\<close> belongs to OpenCV: it
  raises when the source or the requested size \<open>(new_w, new_h)\<close> has a side that is not
  positive, and otherwise returns an image of shape \<open>(new_h, new_w)\<close>.
\<close>

type_synonym shape = "int \<times> int"

definition cv2_resize :: "shape \<Rightarrow> int \<times> int \<Rightarrow> py_error + shape" where
  "cv2_resize img dsize =
     (case (img, dsize) of ((h, w), (new_w, new_h)) \<Rightarrow>
        if h \<le> 0 \<or> w \<le> 0 \<or> new_w \<le> 0 \<or> new_h \<le> 0 then Inl Cv2Error
        else Inr (new_h, new_w))"

text \<open>
  The first definition (headed "Resizes downwards but not upwards"), default target 1600.
  \<open>target_size / max_side\<close> is the quotient of two integers rounded to a double, and
  \<open>w * scale\<close> the product rounded to a double.
\<close>

definition resize_bicubic_max_side_first :: "shape \<Rightarrow> int \<Rightarrow> py_error + (shape \<times> rat)" where
  "resize_bicubic_max_side_first img target_size =
     (case img of (h, w) \<Rightarrow>
        let max_side = max h w in
        if max_side > target_size then
          if max_side = 0 then Inl ZeroDivisionError
          else
            let scale = fl (of_int target_size / of_int max_side);
                new_w = py_int (fl (of_int w * scale));
                new_h = py_int (fl (of_int h * scale))
            in (case cv2_resize img (new_w, new_h) of
                  Inl e \<Rightarrow> Inl e
                | Inr resized_img \<Rightarrow> Inr (resized_img, scale))
        else Inr (img, 1))"

text \<open>
  The second definition, in the inference script, default target 1280. It rebinds the same
  name, so it is the function the name denotes once the inference script has run.
\<close>

definition resize_bicubic_max_side :: "shape \<Rightarrow> int \<Rightarrow> py_error + (shape \<times> rat)" where
  "resize_bicubic_max_side img target_size =
     (case img of (h, w) \<Rightarrow>
        if max h w = 0 then Inl ZeroDivisionError
        else
          let scale = fl (of_int target_size / of_int (max h w))
          in (case cv2_resize img (py_int (fl (of_int w * scale)), py_int (fl (of_int h * scale))) of
                Inl e \<Rightarrow> Inl e
              | Inr resized \<Rightarrow> Inr (resized, scale)))"

subsection \<open>Letterboxing (Swift: \<open>resizedDownwardLetterboxedWithMetadata\<close>)\<close>

text \<open>
  The locals of the Swift function, as functions of the pixel width and height of the
  \<open>CGImage\<close> and of \<open>targetSize\<close>. Every \<open>CGFloat\<close> operation rounds to a double.
  \<open>Int(x)\<close> on a \<open>CGFloat\<close> truncates toward zero, as Python's \<open>int\<close> does.
\<close>

definition maxSide :: "int \<Rightarrow> int \<Rightarrow> rat" where
  "maxSide originalWidth originalHeight = max (of_int originalWidth) (of_int originalHeight)"

definition scale :: "int \<Rightarrow> int \<Rightarrow> int \<Rightarrow> rat" where
  "scale originalWidth originalHeight targetSize =
     (if maxSide originalWidth originalHeight > of_int targetSize
      then fl (of_int targetSize / maxSide originalWidth originalHeight) else 1)"

definition newWidth :: "int \<Rightarrow> int \<Rightarrow> int \<Rightarrow> int" where
  "newWidth originalWidth originalHeight targetSize =
     py_int (fl (of_int originalWidth * scale originalWidth originalHeight targetSize))"

definition newHeight :: "int \<Rightarrow> int \<Rightarrow> int \<Rightarrow> int" where
  "newHeight originalWidth originalHeight targetSize =
     py_int (fl (of_int originalHeight * scale originalWidth originalHeight targetSize))"

definition xOffset :: "int \<Rightarrow> int \<Rightarrow> int \<Rightarrow> rat" where
  "xOffset originalWidth originalHeight targetSize =
     fl (fl (of_int targetSize - of_int (newWidth originalWidth originalHeight targetSize)) / 2)"

definition yOffset :: "int \<Rightarrow> int \<Rightarrow> int \<Rightarrow> rat" where
  "yOffset originalWidth originalHeight targetSize =
     fl (fl (of_int targetSize - of_int (newHeight originalWidth originalHeight targetSize)) / 2)"

text \<open>
  The function itself. Its receiver is seen through \<open>cgImage\<close> (the pixel size, or
  \<open>None\<close> when no \<open>CGImage\<close> can be had) and \<open>selfSize\<close>; \<open>bufferCreated\<close> says
  whether \<open>CVPixelBufferCreate\<close> produced a buffer. The result is the tuple the Swift
  returns, with the pixel buffer reduced to its presence and the image to its size. A
  division by zero gives an infinite or undefined \<open>CGFloat\<close>, on which \<open>Int\<close> traps.
\<close>

datatype swift_error = FatalError

definition resizedDownwardLetterboxedWithMetadata ::
  "(int \<times> int) option \<Rightarrow> rat \<times> rat \<Rightarrow> bool \<Rightarrow> int \<Rightarrow>
     swift_error + (bool \<times> rat \<times> rat \<times> rat \<times> (rat \<times> rat))" where
  "resizedDownwardLetterboxedWithMetadata cgImage selfSize bufferCreated targetSize =
     (case cgImage of
        None \<Rightarrow> Inr (False, 1, 0, 0, selfSize)
      | Some (originalWidth, originalHeight) \<Rightarrow>
          if maxSide originalWidth originalHeight > of_int targetSize
             \<and> maxSide originalWidth originalHeight = 0
          then Inl FatalError
          else Inr (bufferCreated,
                    scale originalWidth originalHeight targetSize,
                    xOffset originalWidth originalHeight targetSize,
                    yOffset originalWidth originalHeight targetSize,
                    (of_int targetSize, of_int targetSize)))"

subsection \<open>The Python inference loop\<close>

text \<open>
  One entry of \<open>results.boxes\<close>, as the loop reads it: the corner coordinates and the
  class, both floating point. The confidence is a field of the entry that the loop itself
  never reads.
\<close>

record engine_box =
  box_xyxy :: "rat \<times> rat \<times> rat \<times> rat"
  box_conf :: rat
  box_cls :: rat

definition raw_box :: "engine_box \<Rightarrow> box" where
  "raw_box b =
     (case box_xyxy b of (x1, y1, x2, y2) \<Rightarrow>
        (py_int x1, py_int y1, py_int x2, py_int y2, py_int (box_cls b)))"

definition raw_boxes :: "engine_box list \<Rightarrow> box list" where
  "raw_boxes results = map raw_box results"

definition all_boxes :: "engine_box list \<Rightarrow> box list" where
  "all_boxes results = deduplicate_boxes (raw_boxes results) (3 / 5)"

text \<open>
  Modelled from the spec: the confidence pre-filter. In the Python script it is inside the
  detection engine that \<open>model(img.copy(), verbose=False)\<close> calls, and in the Swift
  pipeline it is \<open>YOLOv8OutputParser.parse\<close>, called with \<open>confidenceThreshold: 0.3\<close>;
  the code of neither is among the sources. The specification has the candidates below
  \<open>confidenceThreshold\<close> dropped before the suppression logic runs.
\<close>

definition confidence_prefilter :: "rat \<Rightarrow> engine_box list \<Rightarrow> engine_box list" where
  "confidence_prefilter confidenceThreshold candidates =
     filter (\<lambda>c. \<not> box_conf c < confidenceThreshold) candidates"

text \<open>What deduplication is given, and what it keeps, for the engine's candidates.\<close>

definition dedupe_input :: "rat \<Rightarrow> engine_box list \<Rightarrow> box list" where
  "dedupe_input confidenceThreshold candidates =
     raw_boxes (confidence_prefilter confidenceThreshold candidates)"

definition kept_detections :: "rat \<Rightarrow> engine_box list \<Rightarrow> box list" where
  "kept_detections confidenceThreshold candidates =
     all_boxes (confidence_prefilter confidenceThreshold candidates)"

text \<open>
  Images are arrays of pixels, row by row, held in a store addressed by position; a Python
  variable or a Swift reference to an image is an address. A pixel is a triple of channel
  values.
\<close>

type_synonym color = "nat \<times> nat \<times> nat"
type_synonym image = "color list list"
type_synonym store = "image list"

definition colors :: "color list" where
  "colors = [(31, 119, 180), (255, 127, 14), (44, 160, 44), (214, 39, 40), (148, 103, 189),
             (140, 86, 75), (227, 119, 194), (127, 127, 127), (188, 189, 34)]"

text \<open>
  \<open>cv2.rectangle(img, pt1, pt2, color, thickness)\<close> belongs to OpenCV. It writes into the
  array it is given. For the thickness 2 that the loop passes, the stroke is the pixels
  within one pixel of the outline of the rectangle, measured straight across: the pixel
  diagonally outside each corner is left as it was.
\<close>

definition in_stroke :: "int \<times> int \<Rightarrow> int \<times> int \<Rightarrow> int \<Rightarrow> int \<Rightarrow> int \<Rightarrow> bool" where
  "in_stroke pt1 pt2 thickness x y =
     (case (pt1, pt2) of ((x1, y1), (x2, y2)) \<Rightarrow>
        let r = thickness div 2;
            xl = min x1 x2; xh = max x1 x2; yl = min y1 y2; yh = max y1 y2;
            dx = max 0 (max (xl - x) (x - xh));
            dy = max 0 (max (yl - y) (y - yh))
        in if dx = 0 \<and> dy = 0
           then min (min (x - xl) (xh - x)) (min (y - yl) (yh - y)) \<le> r
           else dx * dx + dy * dy \<le> r * r)"

definition paint :: "image \<Rightarrow> int \<times> int \<Rightarrow> int \<times> int \<Rightarrow> color \<Rightarrow> int \<Rightarrow> image" where
  "paint pixels pt1 pt2 color thickness =
     map (\<lambda>(y, row).
            map (\<lambda>(x, p). if in_stroke pt1 pt2 thickness (int x) (int y) then color else p)
                (zip [0..<length row] row))
         (zip [0..<length pixels] pixels)"

definition cv2_rectangle :: "store \<Rightarrow> nat \<Rightarrow> int \<times> int \<Rightarrow> int \<times> int \<Rightarrow> color \<Rightarrow> int \<Rightarrow> store" where
  "cv2_rectangle st img pt1 pt2 color thickness =
     (if img < length st then st[img := paint (st ! img) pt1 pt2 color thickness] else st)"

text \<open>Step 6 of the loop: every kept box is drawn onto \<open>img\<close>.\<close>

fun draw_boxes :: "store \<Rightarrow> nat \<Rightarrow> box list \<Rightarrow> store" where
  "draw_boxes st img [] = st"
| "draw_boxes st img ((x1, y1, x2, y2, cls) # rest) =
     (let color = colors ! nat (cls mod int (length colors))
      in draw_boxes (cv2_rectangle st img (x1, y1) (x2, y2) color 2) img rest)"

text \<open>
  The body of the loop for one loaded image: \<open>results\<close> is what the model returned for a
  copy of the image; the updated store is what \<open>cv2.imwrite\<close> then reads \<open>img\<close> from.
\<close>

definition process_image :: "store \<Rightarrow> nat \<Rightarrow> engine_box list \<Rightarrow> store" where
  "process_image st img results = draw_boxes st img (all_boxes results)"

subsection \<open>Drawing in the Swift pipeline (\<open>drawDetections\<close>)\<close>

text \<open>
  \<open>NSImage(size:)\<close> allocates a new image; \<open>lockFocus\<close> directs all drawing to it until
  \<open>unlockFocus\<close>. The receiver is drawn into the new image first, then every detection
  is stroked and labelled. The type \<open>Detection\<close> is declared outside the given sources and
  the rasterisation of a stroke and a label is AppKit's, so both are parameters:
  \<open>strokeAndLabel d\<close> is the effect of drawing detection \<open>d\<close> on the focused image.
\<close>

definition blank :: "image \<Rightarrow> image" where
  "blank pixels = map (map (\<lambda>p. (0, 0, 0))) pixels"

definition drawDetections ::
  "('d \<Rightarrow> image \<Rightarrow> image) \<Rightarrow> store \<Rightarrow> nat \<Rightarrow> 'd list \<Rightarrow> store \<times> nat" where
  "drawDetections strokeAndLabel st self detections =
     (let newImage = length st;
          st1 = st @ [blank (st ! self)];
          st2 = st1[newImage := st1 ! self];
          st3 = foldl (\<lambda>s detection. s[newImage := strokeAndLabel detection (s ! newImage)])
                      st2 detections
      in (st3, newImage))"

section \<open>Properties of overlap\<close>

lemma area_shapely_box_nonneg: "0 \<le> area (shapely_box a b c d)"
  by (simp add: shapely_box_def)

lemma intersection_area_commute: "intersection_area a b = intersection_area b a"
  by (cases a; cases b) (simp add: min.commute max.commute)

lemma intersection_area_nonneg: "0 \<le> intersection_area a b"
  by (cases a; cases b) simp

lemma iou_commute: "iou a b = iou b a"
  by (simp add: iou_def intersectionArea_def unionArea_def union_area_def
      intersection_area_commute add.commute)

section \<open>Properties of deduplication\<close>

lemma keep_box_iff:
  "keep_box b ks t \<longleftrightarrow> (\<forall>k \<in> set ks. iou b k \<le> t)"
  by (induction ks) (auto simp: not_less)

lemma dedup_loop_append:
  "dedup_loop (xs @ ys) acc t = dedup_loop ys (dedup_loop xs acc t) t"
  by (induction xs arbitrary: acc) simp_all

lemma deduplicate_boxes_snoc:
  "deduplicate_boxes (xs @ [x]) t =
     (if keep_box x (deduplicate_boxes xs t) t
      then deduplicate_boxes xs t @ [x] else deduplicate_boxes xs t)"
  by (simp add: deduplicate_boxes_def dedup_loop_append)

lemma deduplicate_boxes_Nil: "deduplicate_boxes [] t = []"
  by (simp add: deduplicate_boxes_def)

lemma length_deduplicate_boxes: "length (deduplicate_boxes xs t) \<le> length xs"
  by (induction xs rule: rev_induct)
     (simp_all add: deduplicate_boxes_Nil deduplicate_boxes_snoc)

lemma subseq_deduplicate_boxes: "subseq (deduplicate_boxes xs t) xs"
  by (induction xs rule: rev_induct)
     (auto simp: deduplicate_boxes_Nil deduplicate_boxes_snoc)

lemma separated_snoc:
  "separated (xs @ [x]) t \<longleftrightarrow> separated xs t \<and> (\<forall>k \<in> set xs. iou x k \<le> t)"
proof
  assume s: "separated (xs @ [x]) t"
  have "separated xs t"
    unfolding separated_def
  proof (intro allI impI)
    fix j i assume "j < length xs" "i < j"
    with s have "iou ((xs @ [x]) ! j) ((xs @ [x]) ! i) \<le> t"
      by (simp add: separated_def)
    with \<open>j < length xs\<close> \<open>i < j\<close> show "iou (xs ! j) (xs ! i) \<le> t"
      by (simp add: nth_append)
  qed
  moreover have "\<forall>k \<in> set xs. iou x k \<le> t"
  proof
    fix k assume "k \<in> set xs"
    then obtain i where i: "i < length xs" "xs ! i = k"
      by (auto simp: in_set_conv_nth)
    from s i(1) have "iou ((xs @ [x]) ! length xs) ((xs @ [x]) ! i) \<le> t"
      unfolding separated_def by (metis length_append_singleton lessI)
    with i show "iou x k \<le> t"
      by (simp add: nth_append)
  qed
  ultimately show "separated xs t \<and> (\<forall>k \<in> set xs. iou x k \<le> t)" ..
next
  assume a: "separated xs t \<and> (\<forall>k \<in> set xs. iou x k \<le> t)"
  show "separated (xs @ [x]) t"
    unfolding separated_def
  proof (intro allI impI)
    fix j i assume j: "j < length (xs @ [x])" and i: "i < j"
    show "iou ((xs @ [x]) ! j) ((xs @ [x]) ! i) \<le> t"
    proof (cases "j < length xs")
      case True
      with a i show ?thesis by (simp add: separated_def nth_append)
    next
      case False
      with j have "j = length xs" by simp
      with a i show ?thesis by (simp add: nth_append)
    qed
  qed
qed

lemma separated_fixed: "separated xs t \<Longrightarrow> deduplicate_boxes xs t = xs"
  by (induction xs rule: rev_induct)
     (simp_all add: deduplicate_boxes_Nil deduplicate_boxes_snoc separated_snoc keep_box_iff)

lemma separated_Nil: "separated [] t"
  by (simp add: separated_def)

lemma separated_deduplicate_boxes: "separated (deduplicate_boxes xs t) t"
  by (induction xs rule: rev_induct)
     (simp_all add: deduplicate_boxes_Nil deduplicate_boxes_snoc separated_snoc keep_box_iff
        separated_Nil)


lemma survives_take:
  assumes "i < j" "j \<le> length xs"
  shows "survives (take j xs) t i = survives xs t i"
proof -
  from assms have "take i (take j xs) = take i xs"
    by (simp add: min_def)
  with assms show ?thesis
    by (simp add: survives_def)
qed

lemma survives_snoc_old: "j < length xs \<Longrightarrow> survives (xs @ [x]) t j = survives xs t j"
  using survives_take [of j "length xs" "xs @ [x]" t] by simp

lemma survives_snoc_new:
  "survives (xs @ [x]) t (length xs) = keep_box x (deduplicate_boxes xs t) t"
  by (simp add: survives_def)

text \<open>The output is the input read at its surviving positions, in increasing order.\<close>

lemma deduplicate_boxes_positions:
  "deduplicate_boxes xs t = map ((!) xs) (filter (survives xs t) [0..<length xs])"
proof (induction xs rule: rev_induct)
  case Nil
  show ?case by (simp add: deduplicate_boxes_Nil)
next
  case (snoc x xs)
  have f: "filter (survives (xs @ [x]) t) [0..<length xs] = filter (survives xs t) [0..<length xs]"
    by (rule filter_cong) (simp_all add: survives_snoc_old)
  have m: "map ((!) (xs @ [x])) (filter (survives xs t) [0..<length xs]) =
           map ((!) xs) (filter (survives xs t) [0..<length xs])"
    by (rule map_cong) (simp_all add: nth_append)
  show ?case
    by (simp add: deduplicate_boxes_snoc f m survives_snoc_new snoc.IH [symmetric])
qed

lemma survivor_in_later_kept:
  assumes "i < j" "j \<le> length xs" "survives xs t i"
  shows "xs ! i \<in> set (deduplicate_boxes (take j xs) t)"
proof -
  from assms have "survives (take j xs) t i"
    by (simp add: survives_take)
  moreover from assms have "take j xs ! i = xs ! i" "i < length (take j xs)"
    by simp_all
  ultimately show ?thesis
    unfolding deduplicate_boxes_positions [of "take j xs"]
    by (metis (no_types, lifting) atLeast0LessThan image_eqI lessThan_iff list.set_map
        mem_Collect_eq set_filter set_upt)
qed

lemma earlier_survivor_suppresses:
  assumes "i < j" "j < length xs" "survives xs t i" "iou (xs ! j) (xs ! i) > t"
  shows "\<not> survives xs t j"
proof
  assume "survives xs t j"
  then have "keep_box (xs ! j) (deduplicate_boxes (take j xs) t) t"
    by (simp add: survives_def)
  moreover from assms have "xs ! i \<in> set (deduplicate_boxes (take j xs) t)"
    by (simp add: survivor_in_later_kept)
  ultimately have "iou (xs ! j) (xs ! i) \<le> t"
    by (simp add: keep_box_iff)
  with assms(4) show False by simp
qed


lemma discarded_has_earlier_survivor:
  assumes "i < length xs" "\<not> survives xs t i"
  shows "\<exists>k<i. survives xs t k \<and> iou (xs ! i) (xs ! k) > t"
proof -
  from assms have "\<not> keep_box (xs ! i) (deduplicate_boxes (take i xs) t) t"
    by (simp add: survives_def)
  then obtain b where b: "b \<in> set (deduplicate_boxes (take i xs) t)" "iou (xs ! i) b > t"
    by (auto simp: keep_box_iff not_le)
  from b(1) obtain k where k: "k < i" "survives (take i xs) t k" "b = take i xs ! k"
    unfolding deduplicate_boxes_positions [of "take i xs"] using assms(1) by auto
  with assms(1) have "survives xs t k" "b = xs ! k"
    by (simp_all add: survives_take)
  with k(1) b(2) show ?thesis by blast
qed

lemma intersection_area_le_area:
  "intersection_area (shapely_box a b c d) r \<le> area (shapely_box a b c d)"
proof (cases r)
  case (fields bxl byl bxh byh)
  let ?xl = "min a c" and ?xh = "max a c" and ?yl = "min b d" and ?yh = "max b d"
  have x: "max 0 (min ?xh bxh - max ?xl bxl) \<le> ?xh - ?xl" by auto
  have y: "max 0 (min ?yh byh - max ?yl byl) \<le> ?yh - ?yl" by auto
  have "max 0 (min ?xh bxh - max ?xl bxl) * max 0 (min ?yh byh - max ?yl byl)
          \<le> (?xh - ?xl) * (?yh - ?yl)"
    by (rule mult_mono [OF x y]) simp_all
  with fields show ?thesis by (simp add: shapely_box_def)
qed

lemma unionArea_nonneg: "0 \<le> unionArea a b"
proof -
  obtain x1 y1 x2 y2 c where a: "a = (x1, y1, x2, y2, c)" by (cases a)
  obtain u1 v1 u2 v2 d where b: "b = (u1, v1, u2, v2, d)" by (cases b)
  have "intersection_area (shapely_box x1 y1 x2 y2) (shapely_box u1 v1 u2 v2)
          \<le> area (shapely_box x1 y1 x2 y2)"
    by (rule intersection_area_le_area)
  moreover have "0 \<le> area (shapely_box u1 v1 u2 v2)"
    by (rule area_shapely_box_nonneg)
  ultimately show ?thesis
    by (simp add: a b unionArea_def union_area_def)
qed

lemma iou_coords:
  "coords a = coords a' \<Longrightarrow> coords b = coords b' \<Longrightarrow> iou a b = iou a' b'"
  by (cases a; cases a'; cases b; cases b')
     (simp add: iou_def intersectionArea_def unionArea_def)

lemma keep_box_coords:
  "coords b = coords b' \<Longrightarrow> map coords ks = map coords ks' \<Longrightarrow>
     keep_box b ks t = keep_box b' ks' t"
proof (induction ks arbitrary: ks')
  case Nil
  then show ?case by simp
next
  case (Cons k ks)
  then obtain k' ks1 where "ks' = k' # ks1" "coords k = coords k'" "map coords ks = map coords ks1"
    by (cases ks') auto
  with Cons show ?case
    by (simp add: iou_coords [of b b' k k'])
qed

lemma dedup_loop_coords:
  "map coords xs = map coords ys \<Longrightarrow> map coords acc = map coords acc' \<Longrightarrow>
     map coords (dedup_loop xs acc t) = map coords (dedup_loop ys acc' t)"
proof (induction xs arbitrary: ys acc acc')
  case Nil
  then show ?case by simp
next
  case (Cons x xs)
  then obtain y ys1 where ys: "ys = y # ys1" "coords x = coords y" "map coords xs = map coords ys1"
    by (cases ys) auto
  have k: "keep_box x acc t = keep_box y acc' t"
    using ys(2) Cons.prems(2) by (rule keep_box_coords)
  show ?case
    unfolding ys(1) dedup_loop.simps k
    by (rule Cons.IH [OF ys(3)]) (simp add: Cons.prems(2) ys(2))
qed

lemma deduplicate_boxes_coords:
  "map coords xs = map coords ys \<Longrightarrow>
     map coords (deduplicate_boxes xs t) = map coords (deduplicate_boxes ys t)"
  unfolding deduplicate_boxes_def by (rule dedup_loop_coords) simp_all

lemma survives_coords:
  assumes "map coords xs = map coords ys"
  shows "survives xs t j = survives ys t j"
proof -
  from assms have len: "length xs = length ys"
    by (rule map_eq_imp_length_eq)
  show ?thesis
  proof (cases "j < length xs")
    case True
    from assms have "map coords (take j xs) = map coords (take j ys)"
      by (simp add: take_map [symmetric])
    then have "map coords (deduplicate_boxes (take j xs) t) =
               map coords (deduplicate_boxes (take j ys) t)"
      by (rule deduplicate_boxes_coords)
    moreover from assms True len have "coords (xs ! j) = coords (ys ! j)"
      by (metis nth_map)
    ultimately have "keep_box (xs ! j) (deduplicate_boxes (take j xs) t) t =
                     keep_box (ys ! j) (deduplicate_boxes (take j ys) t) t"
      by (intro keep_box_coords)
    with True len show ?thesis by (simp add: survives_def)
  next
    case False
    with len show ?thesis by (simp add: survives_def)
  qed
qed


lemmas overlap_eval =
  iou_def intersectionArea_def unionArea_def union_area_def shapely_box_def

lemmas dedup_eval = deduplicate_boxes_def survives_def overlap_eval

section \<open>Claims about overlap and deduplication\<close>

text \<open>
  C5. For every pair of boxes, \<open>iou\<close> is the intersection area divided by the union area
  when the union area is positive, and 0 when the union area is 0. The union area is never
  negative, so the two cases cover every pair; a pair with union area 0 is not treated as a
  duplicate under any threshold that is not negative.
\<close>

theorem iou_intersection_over_union:
  "(0 < unionArea a b \<longrightarrow>
      iou a b = of_int (intersectionArea a b) / of_int (unionArea a b)) \<and>
   (unionArea a b = 0 \<longrightarrow> iou a b = 0 \<and> (0 \<le> t \<longrightarrow> keep_box a [b] t)) \<and>
   0 \<le> unionArea a b"
  by (simp add: iou_def unionArea_nonneg)

theorem iou_intersection_over_union_witness:
  "0 < unionArea (10, 10, 110, 110, 0) (15, 15, 115, 115, 1) \<and>
   iou (10, 10, 110, 110, 0) (15, 15, 115, 115, 1) = 9025 / 10975 \<and>
   unionArea (5, 5, 5, 9, 0) (5, 5, 5, 9, 0) = 0 \<and>
   iou (5, 5, 5, 9, 0) (5, 5, 5, 9, 0) = 0 \<and>
   (0::rat) \<le> 3 / 5 \<and>
   keep_box (5, 5, 5, 9, 0) [(5, 5, 5, 9, 0)] (3 / 5)"
proof -
  have p: "0 < unionArea (10, 10, 110, 110, 0) (15, 15, 115, 115, 1)"
    by (simp add: unionArea_def union_area_def shapely_box_def)
  have z: "unionArea (5, 5, 5, 9, 0) (5, 5, 5, 9, 0) = 0"
    by (simp add: unionArea_def union_area_def shapely_box_def)
  have i: "intersectionArea (10, 10, 110, 110, 0) (15, 15, 115, 115, 1) = 9025"
    by (simp add: intersectionArea_def shapely_box_def)
  have u: "unionArea (10, 10, 110, 110, 0) (15, 15, 115, 115, 1) = 10975"
    by (simp add: unionArea_def union_area_def shapely_box_def)
  from iou_intersection_over_union [of "(10, 10, 110, 110, 0)" "(15, 15, 115, 115, 1)" 0] p
  have "iou (10, 10, 110, 110, 0) (15, 15, 115, 115, 1) = 9025 / 10975"
    by (simp add: i u)
  moreover
  from iou_intersection_over_union [of "(5, 5, 5, 9, 0)" "(5, 5, 5, 9, 0)" "3 / 5"] z
  have "iou (5, 5, 5, 9, 0) (5, 5, 5, 9, 0) = 0 \<and>
        keep_box (5, 5, 5, 9, 0) [(5, 5, 5, 9, 0)] (3 / 5)"
    by simp
  ultimately show ?thesis using p z by simp
qed

text \<open>
  C4. Deduplication is conservative: the output is never longer than the input; when every
  pairwise overlap among the input boxes is at most the threshold the output is the input
  itself, same elements in the same order; and the empty list gives the empty list.
\<close>

theorem deduplicate_boxes_conservative:
  "length (deduplicate_boxes xs t) \<le> length xs \<and>
   ((\<forall>i < length xs. \<forall>j < length xs. i \<noteq> j \<longrightarrow> iou (xs ! i) (xs ! j) \<le> t) \<longrightarrow>
      deduplicate_boxes xs t = xs) \<and>
   deduplicate_boxes [] t = []"
proof -
  have "deduplicate_boxes xs t = xs"
    if h: "\<forall>i < length xs. \<forall>j < length xs. i \<noteq> j \<longrightarrow> iou (xs ! i) (xs ! j) \<le> t"
  proof -
    have "separated xs t"
      unfolding separated_def using h by auto
    then show ?thesis by (rule separated_fixed)
  qed
  then show ?thesis
    by (simp add: length_deduplicate_boxes deduplicate_boxes_Nil)
qed

theorem deduplicate_boxes_conservative_witness:
  "iou ([(0, 0, 50, 50, 0), (200, 200, 250, 250, 1)] ! 0)
       ([(0, 0, 50, 50, 0), (200, 200, 250, 250, 1)] ! 1) \<le> 3 / 5 \<and>
   iou ([(0, 0, 50, 50, 0), (200, 200, 250, 250, 1)] ! 1)
       ([(0, 0, 50, 50, 0), (200, 200, 250, 250, 1)] ! 0) \<le> 3 / 5 \<and>
   deduplicate_boxes [(0, 0, 50, 50, 0), (200, 200, 250, 250, 1)] (3 / 5)
     = [(0, 0, 50, 50, 0), (200, 200, 250, 250, 1)]"
proof -
  have h: "\<forall>i < length ([(0, 0, 50, 50, 0), (200, 200, 250, 250, 1)] :: box list).
      \<forall>j < length ([(0, 0, 50, 50, 0), (200, 200, 250, 250, 1)] :: box list). i \<noteq> j \<longrightarrow>
        iou ([(0, 0, 50, 50, 0), (200, 200, 250, 250, 1)] ! i)
            ([(0, 0, 50, 50, 0), (200, 200, 250, 250, 1)] ! j) \<le> 3 / 5"
  proof (intro allI impI)
    fix i j :: nat
    assume "i < length ([(0, 0, 50, 50, 0), (200, 200, 250, 250, 1)] :: box list)"
      and "j < length ([(0, 0, 50, 50, 0), (200, 200, 250, 250, 1)] :: box list)"
      and "i \<noteq> j"
    then have "(i = 0 \<and> j = 1) \<or> (i = 1 \<and> j = 0)"
      by auto
    then show "iou ([(0, 0, 50, 50, 0), (200, 200, 250, 250, 1)] ! i)
                   ([(0, 0, 50, 50, 0), (200, 200, 250, 250, 1)] ! j) \<le> 3 / 5"
      by (auto simp: overlap_eval)
  qed
  have "deduplicate_boxes [(0, 0, 50, 50, 0), (200, 200, 250, 250, 1)] (3 / 5)
     = [(0, 0, 50, 50, 0), (200, 200, 250, 250, 1)]"
    by (rule mp [OF conjunct1 [OF conjunct2 [OF deduplicate_boxes_conservative]] h])
  then show ?thesis by (simp add: overlap_eval)
qed

text \<open>
  C10. Deduplication is idempotent: a second pass with the same threshold returns the
  output of the first pass unchanged.
\<close>

theorem deduplicate_boxes_idempotent:
  "deduplicate_boxes (deduplicate_boxes xs t) t = deduplicate_boxes xs t"
  by (rule separated_fixed) (rule separated_deduplicate_boxes)


text \<open>
  C3. Suppression looks at box geometry only. The overlap of two boxes does not change when
  their class labels change, and two input lists with the same coordinates position by
  position, whatever their class labels, have the same surviving positions and give outputs
  with the same coordinates.
\<close>

theorem suppression_ignores_class:
  assumes "map coords xs = map coords ys"
  shows "survives xs t j = survives ys t j \<and>
         map coords (deduplicate_boxes xs t) = map coords (deduplicate_boxes ys t) \<and>
         iou (x1, y1, x2, y2, c) (u1, v1, u2, v2, d) =
           iou (x1, y1, x2, y2, c') (u1, v1, u2, v2, d')"
proof -
  have "iou (x1, y1, x2, y2, c) (u1, v1, u2, v2, d) =
        iou (x1, y1, x2, y2, c') (u1, v1, u2, v2, d')"
    by (rule iou_coords) simp_all
  with assms show ?thesis
    by (simp add: survives_coords [of xs ys] deduplicate_boxes_coords [of xs ys])
qed

theorem suppression_ignores_class_witness:
  "map coords [(10, 10, 110, 110, 0), (15, 15, 115, 115, 0)] =
     map coords [(10, 10, 110, 110, 3), (15, 15, 115, 115, 7)] \<and>
   survives [(10, 10, 110, 110, 0), (15, 15, 115, 115, 0)] (3 / 5) 1 =
     survives [(10, 10, 110, 110, 3), (15, 15, 115, 115, 7)] (3 / 5) 1 \<and>
   map coords (deduplicate_boxes [(10, 10, 110, 110, 0), (15, 15, 115, 115, 0)] (3 / 5)) =
     map coords (deduplicate_boxes [(10, 10, 110, 110, 3), (15, 15, 115, 115, 7)] (3 / 5))"
proof -
  have h: "map coords [(10, 10, 110, 110, 0), (15, 15, 115, 115, 0)] =
           map coords [(10, 10, 110, 110, 3), (15, 15, 115, 115, 7)]"
    by simp
  note w = suppression_ignores_class [OF h, of "3 / 5" 1]
  have a: "survives [(10, 10, 110, 110, 0), (15, 15, 115, 115, 0)] (3 / 5) 1 =
           survives [(10, 10, 110, 110, 3), (15, 15, 115, 115, 7)] (3 / 5) 1"
    by (rule conjunct1 [OF w])
  have b: "map coords (deduplicate_boxes [(10, 10, 110, 110, 0), (15, 15, 115, 115, 0)] (3 / 5)) =
           map coords (deduplicate_boxes [(10, 10, 110, 110, 3), (15, 15, 115, 115, 7)] (3 / 5))"
    by (rule conjunct1 [OF conjunct2 [OF w]])
  show ?thesis
    by (rule conjI [OF h conjI [OF a b]])
qed

text \<open>
  C2, as the code has it. For two input positions \<open>i < j\<close> whose boxes overlap above the
  threshold, at most one survives: when the earlier one is kept the later one is discarded.
  The later one is kept only when the earlier one was itself discarded, as a duplicate of a
  box kept before it. The output is the input read at its surviving positions in increasing
  order, so relative arrival order is preserved.
\<close>

theorem overlapping_pair_keeps_at_most_one:
  assumes "i < j" "j < length xs" "iou (xs ! i) (xs ! j) > t"
  shows "\<not> (survives xs t i \<and> survives xs t j) \<and>
         (survives xs t j \<longrightarrow> (\<exists>k<i. survives xs t k \<and> iou (xs ! i) (xs ! k) > t)) \<and>
         deduplicate_boxes xs t = map ((!) xs) (filter (survives xs t) [0..<length xs]) \<and>
         subseq (deduplicate_boxes xs t) xs"
proof -
  from assms(3) have o: "iou (xs ! j) (xs ! i) > t"
    by (simp add: iou_commute)
  have one: "\<not> (survives xs t i \<and> survives xs t j)"
    using earlier_survivor_suppresses [OF assms(1,2) _ o] by blast
  have "\<exists>k<i. survives xs t k \<and> iou (xs ! i) (xs ! k) > t" if "survives xs t j"
  proof -
    from one that have "\<not> survives xs t i" by blast
    moreover from assms have "i < length xs" by simp
    ultimately show ?thesis by (rule discarded_has_earlier_survivor [rotated])
  qed
  with one show ?thesis
    using deduplicate_boxes_positions [of xs t] subseq_deduplicate_boxes [of xs t] by blast
qed


theorem overlapping_pair_keeps_at_most_one_witness:
  "(1::nat) < 2 \<and>
   2 < length ([(0, 0, 10, 10, 0), (0, 0, 10, 13, 1), (0, 0, 10, 20, 2)] :: box list) \<and>
   iou ([(0, 0, 10, 10, 0), (0, 0, 10, 13, 1), (0, 0, 10, 20, 2)] ! 1)
       ([(0, 0, 10, 10, 0), (0, 0, 10, 13, 1), (0, 0, 10, 20, 2)] ! 2) > 3 / 5 \<and>
   survives [(0, 0, 10, 10, 0), (0, 0, 10, 13, 1), (0, 0, 10, 20, 2)] (3 / 5) 2 \<and>
   \<not> survives [(0, 0, 10, 10, 0), (0, 0, 10, 13, 1), (0, 0, 10, 20, 2)] (3 / 5) 1 \<and>
   (\<exists>k<1. survives [(0, 0, 10, 10, 0), (0, 0, 10, 13, 1), (0, 0, 10, 20, 2)] (3 / 5) k \<and>
      iou ([(0, 0, 10, 10, 0), (0, 0, 10, 13, 1), (0, 0, 10, 20, 2)] ! 1)
          ([(0, 0, 10, 10, 0), (0, 0, 10, 13, 1), (0, 0, 10, 20, 2)] ! k) > 3 / 5)"
proof -
  have l: "(1::nat) < 2"
    by simp
  have n: "2 < length ([(0, 0, 10, 10, 0), (0, 0, 10, 13, 1), (0, 0, 10, 20, 2)] :: box list)"
    by simp
  have o: "iou ([(0, 0, 10, 10, 0), (0, 0, 10, 13, 1), (0, 0, 10, 20, 2)] ! 1)
               ([(0, 0, 10, 10, 0), (0, 0, 10, 13, 1), (0, 0, 10, 20, 2)] ! 2) > 3 / 5"
    by (simp add: overlap_eval)
  have s: "survives [(0, 0, 10, 10, 0), (0, 0, 10, 13, 1), (0, 0, 10, 20, 2)] (3 / 5) 2"
    by (simp add: dedup_eval)
  note w = overlapping_pair_keeps_at_most_one [OF l n o]
  from s conjunct1 [OF w]
  have d: "\<not> survives [(0, 0, 10, 10, 0), (0, 0, 10, 13, 1), (0, 0, 10, 20, 2)] (3 / 5) 1"
    by blast
  have e: "\<exists>k<1. survives [(0, 0, 10, 10, 0), (0, 0, 10, 13, 1), (0, 0, 10, 20, 2)] (3 / 5) k \<and>
      iou ([(0, 0, 10, 10, 0), (0, 0, 10, 13, 1), (0, 0, 10, 20, 2)] ! 1)
          ([(0, 0, 10, 10, 0), (0, 0, 10, 13, 1), (0, 0, 10, 20, 2)] ! k) > 3 / 5"
    by (rule mp [OF conjunct1 [OF conjunct2 [OF w]] s])
  show ?thesis
    by (intro conjI l n o s d e)
qed

text \<open>
  C2, as the specification words it, says that of two overlapping detections the survivor
  is always the earlier one. With the threshold 0.6 and the arrival order
  \<open>(0,0,10,10)\<close>, \<open>(0,0,10,13)\<close>, \<open>(0,0,10,20)\<close> the second box is discarded as a
  duplicate of the first, and the third, which overlaps the second by 0.65 and the first by
  only 0.5, is kept: of the overlapping pair (second, third) the later one survives.
\<close>

theorem later_of_overlapping_pair_survives:
  "iou (0, 0, 10, 13, 1) (0, 0, 10, 20, 2) = 13 / 20 \<and>
   (3 / 5 :: rat) < 13 / 20 \<and>
   deduplicate_boxes [(0, 0, 10, 10, 0), (0, 0, 10, 13, 1), (0, 0, 10, 20, 2)] (3 / 5)
     = [(0, 0, 10, 10, 0), (0, 0, 10, 20, 2)] \<and>
   survives [(0, 0, 10, 10, 0), (0, 0, 10, 13, 1), (0, 0, 10, 20, 2)] (3 / 5) 2 \<and>
   \<not> survives [(0, 0, 10, 10, 0), (0, 0, 10, 13, 1), (0, 0, 10, 20, 2)] (3 / 5) 1"
  by (simp add: dedup_eval)



section \<open>Properties of double-precision rounding\<close>

lemma powi_nat: "0 \<le> e \<Longrightarrow> (2::rat) powi e = 2 ^ nat e"
  by (simp add: power_int_def)

lemma powi_neg: "(2::rat) powi (- e) = 1 / 2 powi e"
  by (simp add: power_int_minus field_simps)

lemma powi_Suc: "(2::rat) powi (e + 1) = 2 * 2 powi e"
  by (simp add: power_int_add)

lemma ilog2_lower:
  assumes "0 < x"
  shows "2 powi (ilog2 x) \<le> x"
proof (cases "1 \<le> x")
  case True
  then have n: "0 < \<lfloor>x\<rfloor>" by simp
  from bitlen_bounds [OF n] have "2 ^ nat (bitlen \<lfloor>x\<rfloor> - 1) \<le> \<lfloor>x\<rfloor>" ..
  then have "(of_int (2 ^ nat (bitlen \<lfloor>x\<rfloor> - 1)) :: rat) \<le> of_int \<lfloor>x\<rfloor>"
    by (simp only: of_int_le_iff)
  also have "\<dots> \<le> x" by simp
  finally have "(2::rat) ^ nat (bitlen \<lfloor>x\<rfloor> - 1) \<le> x" by simp
  moreover from n have "0 \<le> bitlen \<lfloor>x\<rfloor> - 1"
    using bitlen_eq_zero_iff [of "\<lfloor>x\<rfloor>"] bitlen_nonneg [of "\<lfloor>x\<rfloor>"] by linarith
  ultimately show ?thesis
    using True by (simp add: ilog2_def powi_nat)
next
  case False
  define y where "y = 1 / x"
  define c where "c = \<lceil>y\<rceil> - 1"
  from False assms have y1: "1 < y" by (simp add: y_def)
  then have c: "0 < c" unfolding c_def by linarith
  from bitlen_bounds [OF c] have "c < 2 ^ nat (bitlen c)" ..
  then have "c + 1 \<le> 2 ^ nat (bitlen c)" by simp
  then have "(of_int (c + 1) :: rat) \<le> of_int (2 ^ nat (bitlen c))"
    by (simp only: of_int_le_iff)
  moreover have "y \<le> of_int (c + 1)"
    by (simp add: c_def)
  ultimately have "y \<le> 2 ^ nat (bitlen c)" by simp
  then have "1 / x \<le> 2 powi (bitlen c)"
    by (simp add: y_def powi_nat bitlen_nonneg)
  with assms have "1 / 2 powi (bitlen c) \<le> x"
    by (simp add: field_simps)
  with False show ?thesis
    by (simp add: ilog2_def powi_neg c_def y_def)
qed

lemma ilog2_upper:
  assumes "0 < x"
  shows "x < 2 powi (ilog2 x + 1)"
proof (cases "1 \<le> x")
  case True
  then have n: "0 < \<lfloor>x\<rfloor>" by simp
  from bitlen_bounds [OF n] have "\<lfloor>x\<rfloor> < 2 ^ nat (bitlen \<lfloor>x\<rfloor>)" ..
  then have "\<lfloor>x\<rfloor> + 1 \<le> 2 ^ nat (bitlen \<lfloor>x\<rfloor>)" by simp
  then have "(of_int (\<lfloor>x\<rfloor> + 1) :: rat) \<le> of_int (2 ^ nat (bitlen \<lfloor>x\<rfloor>))"
    by (simp only: of_int_le_iff)
  moreover have "x < of_int (\<lfloor>x\<rfloor> + 1)" by linarith
  ultimately have "x < 2 ^ nat (bitlen \<lfloor>x\<rfloor>)" by simp
  then show ?thesis
    using True by (simp add: ilog2_def powi_nat bitlen_nonneg)
next
  case False
  define y where "y = 1 / x"
  define c where "c = \<lceil>y\<rceil> - 1"
  from False assms have y1: "1 < y" by (simp add: y_def)
  then have c: "0 < c" unfolding c_def by linarith
  from c have b: "0 \<le> bitlen c - 1"
    using bitlen_eq_zero_iff [of c] bitlen_nonneg [of c] by linarith
  from bitlen_bounds [OF c] have "2 ^ nat (bitlen c - 1) \<le> c" ..
  then have "(of_int (2 ^ nat (bitlen c - 1)) :: rat) \<le> of_int c"
    by (simp only: of_int_le_iff)
  also have "of_int c < y"
    unfolding c_def by linarith
  finally have "2 ^ nat (bitlen c - 1) < y" by simp
  with b have "2 powi (bitlen c - 1) < 1 / x"
    by (simp add: y_def powi_nat)
  with assms have "x < 1 / 2 powi (bitlen c - 1)"
    by (simp add: field_simps)
  also have "\<dots> = 2 powi (- bitlen c + 1)"
    using powi_neg [of "bitlen c - 1"] by simp
  finally show ?thesis
    using False by (simp add: ilog2_def c_def y_def)
qed

lemma powi_mono: "a \<le> b \<Longrightarrow> (2::rat) powi a \<le> 2 powi b"
  by (rule power_int_increasing) simp_all

lemma ilog2_unique:
  assumes "2 powi e \<le> x" "x < 2 powi (e + 1)"
  shows "ilog2 x = e"
proof -
  have "(0::rat) < 2 powi e" by simp
  with assms(1) have pos: "0 < x" by linarith
  have "\<not> ilog2 x + 1 \<le> e"
  proof
    assume "ilog2 x + 1 \<le> e"
    then have "(2::rat) powi (ilog2 x + 1) \<le> 2 powi e" by (rule powi_mono)
    with ilog2_upper [OF pos] assms(1) show False by simp
  qed
  moreover have "\<not> e + 1 \<le> ilog2 x"
  proof
    assume "e + 1 \<le> ilog2 x"
    then have "(2::rat) powi (e + 1) \<le> 2 powi (ilog2 x)" by (rule powi_mono)
    with ilog2_lower [OF pos] assms(2) show False by simp
  qed
  ultimately show ?thesis by simp
qed

lemma round_even_error: "\<bar>of_int (round_even q) - q\<bar> \<le> 1 / 2"
proof -
  have "of_int \<lfloor>q\<rfloor> \<le> q" "q < of_int \<lfloor>q\<rfloor> + 1" by linarith+
  then show ?thesis
    by (auto simp: round_even_def Let_def)
qed

lemma round_even_nearest:
  assumes "\<bar>q - of_int n\<bar> < 1 / 2"
  shows "round_even q = n"
proof -
  have e: "\<bar>of_int (round_even q) - q\<bar> \<le> 1 / 2" by (rule round_even_error)
  with assms have "\<bar>(of_int (round_even q) :: rat) - of_int n\<bar> < 1" by linarith
  then have "\<bar>(of_int (round_even q - n) :: rat)\<bar> < 1" by simp
  then have "\<bar>round_even q - n\<bar> < 1"
    by (metis of_int_abs of_int_less_1_iff)
  then show ?thesis by simp
qed

lemma round_even_of_int: "round_even (of_int n) = n"
  by (rule round_even_nearest) simp

lemma fl_pos:
  assumes "0 < x"
  shows "fl x = of_int (round_even (x / 2 powi (ilog2 x - 52))) * 2 powi (ilog2 x - 52)"
  using assms by (simp add: fl_def Let_def)

lemma fl_value:
  assumes "2 powi e \<le> x" "x < 2 powi (e + 1)" "\<bar>x / 2 powi (e - 52) - of_int n\<bar> < 1 / 2"
  shows "fl x = of_int n * 2 powi (e - 52)"
proof -
  have "(0::rat) < 2 powi e" by simp
  with assms(1) have pos: "0 < x" by linarith
  from assms(1,2) have "ilog2 x = e" by (rule ilog2_unique)
  with pos assms(3) show ?thesis
    by (simp add: fl_pos round_even_nearest)
qed

lemma fl_error:
  assumes "0 < x"
  shows "\<bar>fl x - x\<bar> \<le> x / 2 ^ 53"
proof -
  define u :: rat where "u = 2 powi (ilog2 x - 52)"
  have u: "0 < u" by (simp add: u_def)
  have "u = 2 powi (ilog2 x) / 2 ^ 52"
    by (simp add: u_def power_int_diff)
  also have "\<dots> \<le> x / 2 ^ 52"
    using ilog2_lower [OF assms] by (simp add: divide_right_mono)
  finally have ux: "u \<le> x / 2 ^ 52" .
  have "\<bar>of_int (round_even (x / u)) - x / u\<bar> \<le> 1 / 2"
    by (rule round_even_error)
  then have "\<bar>of_int (round_even (x / u)) - x / u\<bar> * u \<le> 1 / 2 * u"
    using u by (simp add: mult_right_mono)
  moreover have "\<bar>of_int (round_even (x / u)) - x / u\<bar> * u =
                 \<bar>of_int (round_even (x / u)) * u - x\<bar>"
  proof -
    have "\<bar>of_int (round_even (x / u)) - x / u\<bar> * u =
          \<bar>(of_int (round_even (x / u)) - x / u) * u\<bar>"
      using u by (simp add: abs_mult)
    also have "(of_int (round_even (x / u)) - x / u) * u = of_int (round_even (x / u)) * u - x"
      using u by (simp add: field_simps)
    finally show ?thesis .
  qed
  ultimately have "\<bar>of_int (round_even (x / u)) * u - x\<bar> \<le> u / 2" by simp
  moreover from ux have "u / 2 \<le> x / 2 ^ 53" by simp
  ultimately have "\<bar>of_int (round_even (x / u)) * u - x\<bar> \<le> x / 2 ^ 53" by linarith
  then show ?thesis
    by (simp add: fl_pos [OF assms] u_def)
qed

lemma fl_zero: "fl 0 = 0"
  by (simp add: fl_def)

lemma fl_nonneg: "0 \<le> x \<Longrightarrow> 0 \<le> fl x"
proof (cases "x = 0")
  case True
  then show ?thesis by (simp add: fl_zero)
next
  case False
  assume "0 \<le> x"
  with False have pos: "0 < x" by simp
  from fl_error [OF pos] have "x - x / 2 ^ 53 \<le> fl x" by linarith
  moreover from pos have "0 \<le> x - x / 2 ^ 53" by (simp add: field_simps)
  ultimately show ?thesis by linarith
qed

lemma fl_of_int:
  assumes "0 \<le> n" "n < 2 ^ 53"
  shows "fl (of_int n) = of_int n"
proof (cases "n = 0")
  case True
  then show ?thesis by (simp add: fl_zero)
next
  case False
  with assms have pos: "(0::rat) < of_int n" by simp
  define e where "e = ilog2 (of_int n)"
  have "2 powi e \<le> (of_int n :: rat)"
    unfolding e_def by (rule ilog2_lower [OF pos])
  also from assms have "(of_int n :: rat) < 2 ^ 53"
    by (metis of_int_less_numeral_power_cancel_iff)
  finally have lt: "(2::rat) powi e < 2 powi 53" by simp
  have e: "e < 53"
  proof (rule ccontr)
    assume "\<not> e < 53"
    then have "(2::rat) powi 53 \<le> 2 powi e" by (intro powi_mono) simp
    with \<open>(2::rat) powi e < 2 powi 53\<close> show False by simp
  qed
  define k where "k = nat (52 - e)"
  from e have "e - 52 = - int k" by (simp add: k_def)
  then have "(2::rat) powi (e - 52) = 2 powi (- int k)" by simp
  also have "\<dots> = 1 / 2 ^ k"
    by (simp add: power_int_minus field_simps)
  finally have u: "(2::rat) powi (e - 52) = 1 / 2 ^ k" .
  have "(of_int n :: rat) / 2 powi (e - 52) = of_int (n * 2 ^ k)"
    by (simp add: u)
  then have "round_even (of_int n / 2 powi (e - 52)) = n * 2 ^ k"
    by (simp only: round_even_of_int)
  then show ?thesis
    using pos by (simp add: fl_pos e_def [symmetric] u)
qed


lemma fl_half:
  assumes "0 \<le> x"
  shows "fl (x / 2) = fl x / 2"
proof (cases "x = 0")
  case True
  then show ?thesis by (simp add: fl_zero)
next
  case False
  with assms have pos: "0 < x" by simp
  define e where "e = ilog2 x"
  have lo: "2 powi e \<le> x" unfolding e_def by (rule ilog2_lower [OF pos])
  have hi: "x < 2 powi (e + 1)" unfolding e_def by (rule ilog2_upper [OF pos])
  have p: "(2::rat) powi e = 2 * 2 powi (e - 1)"
    using powi_Suc [of "e - 1"] by simp
  from lo p have lo': "2 powi (e - 1) \<le> x / 2" by simp
  from hi have hi': "x / 2 < 2 powi (e - 1 + 1)"
    by (simp add: powi_Suc)
  from lo' hi' have e': "ilog2 (x / 2) = e - 1" by (rule ilog2_unique)
  have u: "(2::rat) powi (e - 52) = 2 * 2 powi (e - 1 - 52)"
    using powi_Suc [of "e - 1 - 52"] by simp
  have q: "x / 2 / 2 powi (e - 1 - 52) = x / 2 powi (e - 52)"
    by (simp add: u)
  from pos have "fl (x / 2) =
      of_int (round_even (x / 2 / 2 powi (e - 1 - 52))) * 2 powi (e - 1 - 52)"
    by (simp add: fl_pos e')
  also have "\<dots> = of_int (round_even (x / 2 powi (e - 52))) * 2 powi (e - 52) / 2"
    by (simp only: q) (simp add: u)
  also have "\<dots> = fl x / 2"
    by (simp add: fl_pos [OF pos] e_def)
  finally show ?thesis .
qed

lemma fl_upper: "0 \<le> x \<Longrightarrow> fl x \<le> x + x / 2 ^ 53"
proof (cases "x = 0")
  case True
  then show ?thesis by (simp add: fl_zero)
next
  case False
  assume "0 \<le> x"
  with False have "0 < x" by simp
  from fl_error [OF this] show ?thesis by linarith
qed

lemma fl_lower: "0 \<le> x \<Longrightarrow> x - x / 2 ^ 53 \<le> fl x"
proof (cases "x = 0")
  case True
  then show ?thesis by (simp add: fl_zero)
next
  case False
  assume "0 \<le> x"
  with False have "0 < x" by simp
  from fl_error [OF this] show ?thesis by linarith
qed

section \<open>Properties of the resize and letterbox arithmetic\<close>

lemma py_int_nonneg: "0 \<le> q \<Longrightarrow> py_int q = \<lfloor>q\<rfloor>"
  by (simp add: py_int_def)

lemma maxSide_of_int: "maxSide w h = of_int (max w h)"
  by (simp add: maxSide_def)

lemma scale_cases:
  "scale w h t = (if max w h > t then fl (of_int t / of_int (max w h)) else 1)"
  by (simp add: scale_def maxSide_of_int del: of_int_max)

text \<open>The rounded quotient of a smaller by a larger side is at most 1.\<close>

lemma fl_quotient_le_1:
  fixes t m :: int
  assumes "0 < t" "t < m" "m < 2 ^ 53"
  shows "0 \<le> fl (of_int t / of_int m) \<and> fl (of_int t / of_int m) \<le> 1"
proof -
  define x :: rat where "x = of_int t / of_int m"
  from assms have m: "(0::rat) < of_int m" by simp
  from assms have x0: "0 \<le> x" by (simp add: x_def)
  from assms have "t \<le> m - 1" by simp
  then have "(of_int t :: rat) \<le> of_int (m - 1)" by (simp only: of_int_le_iff)
  then have "x \<le> of_int (m - 1) / of_int m"
    unfolding x_def using m by (simp add: divide_right_mono)
  also have "\<dots> = 1 - 1 / of_int m"
    using m by (simp add: field_simps)
  finally have a: "x \<le> 1 - 1 / of_int m" .
  from m have im: "0 < 1 / (of_int m :: rat)" by simp
  from a im have x1: "x \<le> 1" by linarith
  from assms(3) have "(of_int m :: rat) < of_int (2 ^ 53)"
    by (simp only: of_int_less_iff)
  then have mlt: "(of_int m :: rat) \<le> 2 ^ 53" by simp
  have "1 / 2 ^ 53 \<le> 1 / (of_int m :: rat)"
    by (rule frac_le) (use m mlt in simp_all)
  moreover from x1 have "x / 2 ^ 53 \<le> 1 / 2 ^ 53"
    by (rule divide_right_mono) simp
  ultimately have b: "x / 2 ^ 53 \<le> 1 / of_int m" by linarith
  from fl_upper [OF x0] a b have "fl x \<le> 1" by linarith
  with fl_nonneg [OF x0] show ?thesis by (simp add: x_def)
qed

lemma scale_nonneg:
  assumes "0 < w" "0 < h" "0 < t"
  shows "0 \<le> scale w h t"
  using assms by (simp add: scale_cases fl_nonneg)

lemma scale_le_1:
  assumes "0 < w" "0 < h" "0 < t" "max w h < 2 ^ 53"
  shows "0 \<le> scale w h t \<and> scale w h t \<le> 1"
proof (cases "max w h > t")
  case True
  with fl_quotient_le_1 [OF assms(3) _ assms(4)] show ?thesis
    by (simp add: scale_cases)
next
  case False
  then show ?thesis by (simp add: scale_cases)
qed

text \<open>
  The side \<open>a\<close> of an image whose larger side \<open>m\<close> exceeds the target \<open>t\<close>: the
  double that the code truncates differs from the exact \<open>a * t / m\<close> by at most three
  rounding errors.
\<close>

lemma scaled_side_error:
  fixes a t m :: int
  assumes "0 < a" "a \<le> m" "0 < t"
  shows "\<bar>fl (of_int a * fl (of_int t / of_int m)) - of_int a * of_int t / of_int m\<bar>
           \<le> 3 * of_int t / 2 ^ 53"
proof -
  define x :: rat where "x = of_int t / of_int m"
  define s where "s = fl x"
  define X :: rat where "X = of_int a * x"
  define P where "P = of_int a * s"
  from assms have m: "(0::rat) < of_int m" by simp
  from assms have a: "(0::rat) < of_int a" by simp
  from assms m have x: "0 < x" by (simp add: x_def)
  from a x have X: "0 < X" by (simp add: X_def)
  have "X = of_int t * (of_int a / of_int m)"
    by (simp add: X_def x_def)
  also have "\<dots> \<le> of_int t * 1"
  proof (rule mult_left_mono)
    from assms(2) have "(of_int a :: rat) \<le> of_int m" by (simp only: of_int_le_iff)
    with m show "(of_int a :: rat) / of_int m \<le> 1" by simp
    from assms(3) show "(0::rat) \<le> of_int t" by simp
  qed
  finally have Xt: "X \<le> of_int t" by simp
  have "\<bar>s - x\<bar> \<le> x / 2 ^ 53"
    unfolding s_def by (rule fl_error [OF x])
  then have "of_int a * \<bar>s - x\<bar> \<le> of_int a * (x / 2 ^ 53)"
    using a by (simp add: mult_left_mono)
  moreover have "of_int a * \<bar>s - x\<bar> = \<bar>P - X\<bar>"
    using a by (simp add: P_def X_def abs_mult right_diff_distrib [symmetric])
  ultimately have PX: "\<bar>P - X\<bar> \<le> X / 2 ^ 53"
    by (simp add: X_def)
  have P0: "0 \<le> P"
    using a fl_nonneg [of x] x by (simp add: P_def s_def)
  have FP: "\<bar>fl P - P\<bar> \<le> P / 2 ^ 53"
  proof (cases "P = 0")
    case True
    then show ?thesis by (simp add: fl_zero)
  next
    case False
    with P0 have "0 < P" by simp
    then show ?thesis by (rule fl_error)
  qed
  from PX have "P \<le> X + X / 2 ^ 53" by linarith
  then have "P / 2 ^ 53 \<le> (X + X / 2 ^ 53) / 2 ^ 53"
    by (simp add: divide_right_mono)
  also from X have "\<dots> \<le> 2 * X / 2 ^ 53"
    by (simp add: field_simps)
  finally have "P / 2 ^ 53 \<le> 2 * X / 2 ^ 53" .
  with FP PX have "\<bar>fl P - X\<bar> \<le> 3 * X / 2 ^ 53" by linarith
  also from Xt have "\<dots> \<le> 3 * of_int t / 2 ^ 53" by simp
  finally show ?thesis
    by (simp add: P_def s_def X_def x_def)
qed


lemma side_times_quotient_le:
  fixes a t m :: int
  assumes "0 < a" "a \<le> m" "0 < t"
  shows "(of_int a * of_int t / of_int m :: rat) \<le> of_int t"
proof -
  from assms have m: "(0::rat) < of_int m" by simp
  from assms(2) have "(of_int a :: rat) \<le> of_int m" by (simp only: of_int_le_iff)
  moreover from assms(3) have "(0::rat) \<le> of_int t" by simp
  ultimately have "(of_int a * of_int t :: rat) \<le> of_int m * of_int t"
    by (rule mult_right_mono)
  then have "(of_int a * of_int t / of_int m :: rat) \<le> of_int m * of_int t / of_int m"
    using m by (simp only: divide_right_mono less_imp_le)
  also from m have "\<dots> = of_int t" by simp
  finally show ?thesis .
qed

lemma resized_side_nonneg:
  assumes "0 < w" "0 < h" "0 < t" "0 < a"
  shows "0 \<le> fl (of_int a * scale w h t)"
proof -
  from assms have "0 \<le> of_int a * scale w h t"
    using scale_nonneg [OF assms(1,2,3)] by simp
  then show ?thesis by (rule fl_nonneg)
qed

lemma resized_side_floor:
  assumes "0 < w" "0 < h" "0 < t" "0 < a"
  shows "py_int (fl (of_int a * scale w h t)) = \<lfloor>fl (of_int a * scale w h t)\<rfloor>"
  using resized_side_nonneg [OF assms] by (rule py_int_nonneg)

lemma small_int_rat:
  fixes n :: int
  shows "n < 2 ^ k \<Longrightarrow> (of_int n :: rat) < 2 ^ k"
  by (metis of_int_less_iff of_int_numeral of_int_power)

lemma resized_side_le_target:
  assumes "0 < w" "0 < h" "0 < t" "0 < a" "a \<le> max w h" "max w h < 2 ^ 50" "t < 2 ^ 50"
  shows "0 \<le> \<lfloor>fl (of_int a * scale w h t)\<rfloor> \<and> \<lfloor>fl (of_int a * scale w h t)\<rfloor> \<le> t"
proof -
  define F where "F = fl (of_int a * scale w h t)"
  have F0: "0 \<le> F" unfolding F_def by (rule resized_side_nonneg [OF assms(1-4)])
  have "F < of_int t + 1"
  proof (cases "max w h > t")
    case True
    then have F: "F = fl (of_int a * fl (of_int t / of_int (max w h)))"
      by (simp add: F_def scale_cases)
    note err = scaled_side_error [OF assms(4,5,3)]
    note le = side_times_quotient_le [OF assms(4,5,3)]
    from small_int_rat [OF assms(7)] have "3 * (of_int t :: rat) / 2 ^ 53 < 1" by simp
    with err le show ?thesis unfolding F by linarith
  next
    case False
    from assms(5,6) have "a < 2 ^ 50" by linarith
    then have "a < 2 ^ 53" by simp
    with assms(4) have "fl (of_int a) = of_int a"
      by (intro fl_of_int) simp_all
    with False have "F = of_int a"
      by (simp add: F_def scale_cases)
    moreover from False assms(5) have "a \<le> t" by simp
    then have "(of_int a :: rat) \<le> of_int t" by (simp only: of_int_le_iff)
    ultimately show ?thesis by simp
  qed
  then have "\<lfloor>F\<rfloor> \<le> t" by (simp add: floor_le_iff)
  moreover from F0 have "0 \<le> \<lfloor>F\<rfloor>" by simp
  ultimately show ?thesis by (simp add: F_def)
qed


lemma offset_exact:
  fixes n t :: int
  assumes "0 \<le> n" "n \<le> t" "t < 2 ^ 53"
  shows "fl (fl (of_int t - of_int n) / 2) = (of_int t - of_int n) / 2 \<and>
         0 \<le> (of_int t - of_int n :: rat) / 2"
proof -
  from assms have k: "0 \<le> t - n" "t - n < 2 ^ 53" by simp_all
  then have a: "fl (of_int (t - n)) = of_int (t - n)" by (rule fl_of_int)
  from k(1) have nn: "(0::rat) \<le> of_int (t - n)" by simp
  from fl_half [OF nn] a have "fl (of_int (t - n) / 2) = of_int (t - n) / 2" by simp
  with a nn show ?thesis by simp
qed

lemma cv2_resize_Inr:
  "cv2_resize img (new_w, new_h) = Inr r \<Longrightarrow> r = (new_h, new_w)"
  by (cases img) (auto simp: cv2_resize_def split: if_splits)

lemma resize_first_result:
  assumes "0 < h" "0 < w" "resize_bicubic_max_side_first (h, w) t = Inr (r, s)"
  shows "s = (if max h w > t then fl (of_int t / of_int (max h w)) else 1) \<and>
         r = (if max h w > t then (py_int (fl (of_int h * s)), py_int (fl (of_int w * s)))
              else (h, w))"
proof (cases "max h w > t")
  case True
  from assms(1,2) have nz: "max h w \<noteq> 0" by simp
  from assms(3) True nz show ?thesis
    by (auto simp: resize_bicubic_max_side_first_def Let_def
        split: sum.splits dest: cv2_resize_Inr)
next
  case False
  with assms(3) show ?thesis
    by (simp add: resize_bicubic_max_side_first_def Let_def)
qed


lemma resize_first_downscale_only:
  assumes "0 < h" "0 < w" "0 < t" "max h w < 2 ^ 53"
    and "resize_bicubic_max_side_first (h, w) t = Inr (r, s)"
  shows "s = (if max h w > t then fl (of_int t / of_int (max h w)) else 1) \<and> s \<le> 1"
proof -
  from resize_first_result [OF assms(1,2,5)]
  have s: "s = (if max h w > t then fl (of_int t / of_int (max h w)) else 1)" ..
  have "s \<le> 1"
  proof (cases "max h w > t")
    case True
    with fl_quotient_le_1 [OF assms(3) _ assms(4)] s show ?thesis by simp
  next
    case False
    with s show ?thesis by simp
  qed
  with s show ?thesis ..
qed

subsection \<open>Roundings at the inputs used below\<close>

lemma fl_64_5: "fl (64 / 5) = 3602879701896397 / 281474976710656"
  using fl_value [of 3 "64 / 5" 7205759403792794] by simp

lemma fl_100_scale: "fl (90071992547409925 / 70368744177664) = 1280"
  using fl_value [of 10 "90071992547409925 / 70368744177664" 5629499534213120] by simp

lemma fl_3_4: "fl (3 / 4) = 3 / 4"
  using fl_value [of "-1" "3 / 4" 6755399441055744] by simp

lemma fl_15_4: "fl (15 / 4) = 15 / 4"
  using fl_value [of 1 "15 / 4" 8444249301319680] by simp

lemma fl_6: "fl (6) = 6"
  using fl_value [of 2 "6" 6755399441055744] by simp

lemma fl_400_539: "fl (400 / 539) = 6684377925596283 / 9007199254740992"
  using fl_value [of "-1" "400 / 539" 6684377925596283] by simp

lemma fl_2156_scale: "fl (3602879701896396537 / 2251799813685248) = 7036874417766399 / 4398046511104"
  using fl_value [of 10 "3602879701896396537 / 2251799813685248" 7036874417766399] by simp

lemma fl_1617_scale: "fl (10808639105689189611 / 9007199254740992) = 1200"
  using fl_value [of 10 "10808639105689189611 / 9007199254740992" 5277655813324800] by simp

lemma fl_5_6: "fl (5 / 6) = 7505999378950827 / 9007199254740992"
  using fl_value [of "-1" "5 / 6" 7505999378950827] by simp

lemma fl_1920_scale: "fl (112589990684262405 / 70368744177664) = 1600"
  using fl_value [of 10 "112589990684262405 / 70368744177664" 7036874417766400] by simp

lemma fl_1440_scale: "fl (337769972052787215 / 281474976710656) = 1200"
  using fl_value [of 10 "337769972052787215 / 281474976710656" 5277655813324800] by simp

lemma fl_100: "fl 100 = 100"
  using fl_of_int [of 100] by simp

lemmas rounding_eval =
  fl_100 fl_64_5 fl_100_scale fl_3_4 fl_15_4 fl_6 fl_400_539 fl_2156_scale fl_1617_scale
  fl_5_6 fl_1920_scale fl_1440_scale

lemmas transform_eval =
  resize_bicubic_max_side_def resize_bicubic_max_side_first_def cv2_resize_def
  py_int_def scale_def maxSide_def newWidth_def newHeight_def rounding_eval floor_eq_iff
  Let_def

section \<open>Claims about resizing and letterboxing\<close>

text \<open>
  C1. The scale is \<open>targetSize / maxSide\<close> when the larger side exceeds the target and
  1 otherwise, so it never exceeds 1. The first Python definition and the Swift function
  compute exactly this (\<open>resize_first_downscale_only\<close>, \<open>scale_cases\<close>,
  \<open>scale_le_1\<close>). The second Python definition, which replaces the first under the same
  name, divides unconditionally: on a 100 by 100 image with its default target 1280 it
  returns as scale the double nearest to 12.8 and a 1280 by 1280 image, where the first
  definition and the Swift function leave the image alone with scale 1.
\<close>

theorem resize_bicubic_max_side_upscales:
  "resize_bicubic_max_side (100, 100) 1280 =
     Inr ((1280, 1280), 3602879701896397 / 281474976710656) \<and>
   (1::rat) < 3602879701896397 / 281474976710656 \<and>
   resize_bicubic_max_side_first (100, 100) 1280 = Inr ((100, 100), 1) \<and>
   scale 100 100 1280 = 1"
  by (simp add: transform_eval)




text \<open>
  C7. For positive width, height and target (below \<open>2 ^ 50\<close>) the Swift letterbox
  function returns the offsets \<open>(targetSize - newWidth) / 2\<close> and
  \<open>(targetSize - newHeight) / 2\<close>, computed without rounding error; neither is
  negative, and each centres the resized image: offset, resized side and offset add up to
  the target. A 1920 by 1440 image with target 1600 gives as scale the double nearest to
  1600/1920, resized sides 1600 and 1200, and offsets 0 and 200.
\<close>

theorem letterbox_padding_centres:
  assumes "0 < w" "0 < h" "0 < t" "w < 2 ^ 50" "h < 2 ^ 50" "t < 2 ^ 50"
  shows "resizedDownwardLetterboxedWithMetadata (Some (w, h)) sz ok t =
           Inr (ok, scale w h t,
                (of_int t - of_int (newWidth w h t)) / 2,
                (of_int t - of_int (newHeight w h t)) / 2,
                (of_int t, of_int t)) \<and>
         0 \<le> xOffset w h t \<and> 0 \<le> yOffset w h t \<and>
         xOffset w h t + of_int (newWidth w h t) + xOffset w h t = of_int t \<and>
         yOffset w h t + of_int (newHeight w h t) + yOffset w h t = of_int t \<and>
         resizedDownwardLetterboxedWithMetadata (Some (1920, 1440)) sz ok 1600 =
           Inr (ok, 7505999378950827 / 9007199254740992, 0, 200, (1600, 1600)) \<and>
         \<bar>7505999378950827 / 9007199254740992 - 1600 / 1920 :: rat\<bar> < 1 / 10 ^ 16 \<and>
         newWidth 1920 1440 1600 = 1600 \<and> newHeight 1920 1440 1600 = 1200"
proof -
  have general: "resizedDownwardLetterboxedWithMetadata (Some (w, h)) sz ok t =
           Inr (ok, scale w h t,
                (of_int t - of_int (newWidth w h t)) / 2,
                (of_int t - of_int (newHeight w h t)) / 2,
                (of_int t, of_int t)) \<and>
         0 \<le> xOffset w h t \<and> 0 \<le> yOffset w h t \<and>
         xOffset w h t + of_int (newWidth w h t) + xOffset w h t = of_int t \<and>
         yOffset w h t + of_int (newHeight w h t) + yOffset w h t = of_int t"
    if pos: "0 < w" "0 < h" "0 < t" and bd: "w < 2 ^ 50" "h < 2 ^ 50" "t < 2 ^ 50"
    for w h t :: int
  proof -
    from bd have m50: "max w h < 2 ^ 50" by simp
    from bd have t53: "t < 2 ^ 53" by simp
    have "w \<le> max w h" "h \<le> max w h" by simp_all
    note sw = resized_side_le_target [OF pos pos(1) this(1) m50 bd(3)]
      and sh = resized_side_le_target [OF pos pos(2) this(2) m50 bd(3)]
    have fw: "newWidth w h t = \<lfloor>fl (of_int w * scale w h t)\<rfloor>"
      unfolding newWidth_def by (rule resized_side_floor [OF pos pos(1)])
    have fh: "newHeight w h t = \<lfloor>fl (of_int h * scale w h t)\<rfloor>"
      unfolding newHeight_def by (rule resized_side_floor [OF pos pos(2)])
    from sw sh have nw: "0 \<le> newWidth w h t" "newWidth w h t \<le> t"
      and nh: "0 \<le> newHeight w h t" "newHeight w h t \<le> t"
      unfolding fw fh by simp_all
    from offset_exact [OF nw t53]
    have x: "xOffset w h t = (of_int t - of_int (newWidth w h t)) / 2" "0 \<le> xOffset w h t"
      by (simp_all add: xOffset_def)
    from offset_exact [OF nh t53]
    have y: "yOffset w h t = (of_int t - of_int (newHeight w h t)) / 2" "0 \<le> yOffset w h t"
      by (simp_all add: yOffset_def)
    from pos have m: "maxSide w h \<noteq> 0"
      by (simp add: maxSide_def max_def)
    then have r: "resizedDownwardLetterboxedWithMetadata (Some (w, h)) sz ok t =
           Inr (ok, scale w h t,
                (of_int t - of_int (newWidth w h t)) / 2,
                (of_int t - of_int (newHeight w h t)) / 2,
                (of_int t, of_int t))"
      by (simp add: resizedDownwardLetterboxedWithMetadata_def x(1) y(1))
    have cx: "xOffset w h t + of_int (newWidth w h t) + xOffset w h t = of_int t"
      by (simp add: x(1) field_simps)
    have cy: "yOffset w h t + of_int (newHeight w h t) + yOffset w h t = of_int t"
      by (simp add: y(1) field_simps)
    show ?thesis
      by (intro conjI r x(2) y(2) cx cy)
  qed
  have nw: "newWidth 1920 1440 1600 = 1600"
    by (simp add: transform_eval)
  have nh: "newHeight 1920 1440 1600 = 1200"
    by (simp add: transform_eval)
  have sc: "scale 1920 1440 1600 = 7505999378950827 / 9007199254740992"
    by (simp add: transform_eval)
  from general [of 1920 1440 1600]
  have scen: "resizedDownwardLetterboxedWithMetadata (Some (1920, 1440)) sz ok 1600 =
           Inr (ok, 7505999378950827 / 9007199254740992, 0, 200, (1600, 1600))"
    by (simp add: nw nh sc)
  have near: "\<bar>7505999378950827 / 9007199254740992 - 1600 / 1920 :: rat\<bar> < 1 / 10 ^ 16"
    by simp
  from general [OF assms] scen near nw nh show ?thesis
    by blast
qed

theorem letterbox_padding_centres_witness:
  "(0::int) < 2156 \<and> (0::int) < 1617 \<and> (0::int) < 1600 \<and>
   (2156::int) < 2 ^ 50 \<and> (1617::int) < 2 ^ 50 \<and> (1600::int) < 2 ^ 50 \<and>
   resizedDownwardLetterboxedWithMetadata (Some (2156, 1617)) (2156, 1617) True 1600 =
     Inr (True, 6684377925596283 / 9007199254740992, 1 / 2, 200, (1600, 1600)) \<and>
   0 \<le> xOffset 2156 1617 1600 \<and> 0 \<le> yOffset 2156 1617 1600"
proof -
  have p: "(0::int) < 2156" "(0::int) < 1617" "(0::int) < 1600"
    by simp_all
  have b: "(2156::int) < 2 ^ 50" "(1617::int) < 2 ^ 50" "(1600::int) < 2 ^ 50"
    by simp_all
  note w = letterbox_padding_centres [OF p b, of "(2156, 1617)" True]
  have nw: "newWidth 2156 1617 1600 = 1599"
    by (simp add: transform_eval)
  have nh: "newHeight 2156 1617 1600 = 1200"
    by (simp add: transform_eval)
  have sc: "scale 2156 1617 1600 = 6684377925596283 / 9007199254740992"
    by (simp add: transform_eval)
  from w have r: "resizedDownwardLetterboxedWithMetadata (Some (2156, 1617)) (2156, 1617) True 1600 =
     Inr (True, 6684377925596283 / 9007199254740992, 1 / 2, 200, (1600, 1600))"
    by (simp add: nw nh sc)
  from w have x: "0 \<le> xOffset 2156 1617 1600" and y: "0 \<le> yOffset 2156 1617 1600"
    by blast+
  show ?thesis
    by (intro conjI p b r x y)
qed

section \<open>Properties of drawing\<close>

lemmas render_eval =
  cv2_rectangle_def paint_def in_stroke_def colors_def

lemma length_cv2_rectangle: "length (cv2_rectangle st img p q c k) = length st"
  by (simp add: cv2_rectangle_def)

lemma cv2_rectangle_other: "r \<noteq> img \<Longrightarrow> cv2_rectangle st img p q c k ! r = st ! r"
  by (simp add: cv2_rectangle_def)

lemma draw_boxes_frame:
  "length (draw_boxes st img bs) = length st \<and>
   (r \<noteq> img \<longrightarrow> draw_boxes st img bs ! r = st ! r)"
proof (induction st img bs rule: draw_boxes.induct)
  case (1 st img)
  show ?case by simp
next
  case (2 st img x1 y1 x2 y2 cls rest)
  then show ?case
    by (simp add: Let_def length_cv2_rectangle cv2_rectangle_other)
qed

lemma strokes_frame:
  fixes f :: "'d \<Rightarrow> image \<Rightarrow> image"
  shows "length (foldl (\<lambda>s d. s[n := f d (s ! n)]) st ds) = length st \<and>
         (r \<noteq> n \<longrightarrow> foldl (\<lambda>s d. s[n := f d (s ! n)]) st ds ! r = st ! r)"
  by (induction ds arbitrary: st) simp_all

section \<open>Claims about drawing and the inference loop\<close>

text \<open>
  C8, as the code has it. The Swift \<open>drawDetections\<close> returns a new image and leaves its
  receiver, and every other image that existed before the call, unchanged, whatever is
  drawn. The Python loop has no such function: it draws into \<open>img\<close> itself, and leaves
  unchanged only the images other than \<open>img\<close>.
\<close>

theorem drawDetections_leaves_receiver:
  assumes "self < length st"
  shows "snd (drawDetections f st self ds) = length st \<and>
         snd (drawDetections f st self ds) \<noteq> self \<and>
         length (fst (drawDetections f st self ds)) = Suc (length st) \<and>
         fst (drawDetections f st self ds) ! self = st ! self \<and>
         take (length st) (fst (drawDetections f st self ds)) = st \<and>
         length (draw_boxes st img bs) = length st \<and>
         (r \<noteq> img \<longrightarrow> draw_boxes st img bs ! r = st ! r)"
proof -
  define st2 where "st2 = (st @ [blank (st ! self)])[length st := (st @ [blank (st ! self)]) ! self]"
  define st3 where "st3 = foldl (\<lambda>s d. s[length st := f d (s ! length st)]) st2 ds"
  have res: "drawDetections f st self ds = (st3, length st)"
    by (simp add: drawDetections_def Let_def st3_def st2_def)
  have len2: "length st2 = Suc (length st)"
    by (simp add: st2_def)
  have len: "length st3 = Suc (length st)"
    unfolding st3_def using strokes_frame [of "length st" f st2 ds] len2 by simp
  have old: "st3 ! k = st ! k" if "k < length st" for k
  proof -
    from that have "k \<noteq> length st" by simp
    then have "st3 ! k = st2 ! k"
      unfolding st3_def using strokes_frame [of "length st" f st2 ds k] by blast
    also from that have "\<dots> = st ! k"
      by (simp add: st2_def nth_append)
    finally show ?thesis .
  qed
  have tk: "take (length st) st3 = st"
    by (rule nth_equalityI) (simp_all add: len old)
  from assms have ne: "length st \<noteq> self" by simp
  from res len old [OF assms] tk ne draw_boxes_frame [of st img bs r] show ?thesis
    by simp
qed

theorem drawDetections_leaves_receiver_witness:
  "(1::nat) < length ([[[(0, 0, 0)]], [[(9, 9, 9)]]] :: store) \<and> (1::nat) \<noteq> 0 \<and>
   fst (drawDetections (\<lambda>d pixels. map (map (\<lambda>p. d)) pixels)
          [[[(0, 0, 0)]], [[(9, 9, 9)]]] 1 [(1, 2, 3)]) ! 1 = [[(9, 9, 9)]] \<and>
   draw_boxes [[[(0, 0, 0)]], [[(9, 9, 9)]]] 0 [(0, 0, 0, 0, 0)] ! 1 = [[(9, 9, 9)]]"
proof -
  have h: "(1::nat) < length ([[[(0, 0, 0)]], [[(9, 9, 9)]]] :: store)"
    by simp
  have n: "(1::nat) \<noteq> 0"
    by simp
  note w = drawDetections_leaves_receiver
             [where st = "[[[(0, 0, 0)]], [[(9, 9, 9)]]]" and self = 1
                and f = "\<lambda>d pixels. map (map (\<lambda>p. d)) pixels" and ds = "[(1, 2, 3)]"
                and img = 0 and r = 1 and bs = "[(0, 0, 0, 0, 0)]", OF h]
  from w have a: "fst (drawDetections (\<lambda>d pixels. map (map (\<lambda>p. d)) pixels)
          [[[(0, 0, 0)]], [[(9, 9, 9)]]] 1 [(1, 2, 3)]) ! 1 = [[[(0, 0, 0)]], [[(9, 9, 9)]]] ! 1"
    by blast
  from w n have b: "draw_boxes [[[(0, 0, 0)]], [[(9, 9, 9)]]] 0 [(0, 0, 0, 0, 0)] ! 1 =
                    [[[(0, 0, 0)]], [[(9, 9, 9)]]] ! 1"
    by blast
  from a b h n show ?thesis
    by simp
qed

text \<open>
  C8, as the specification words it, says that drawing never changes the input image. In
  the Python loop a kept box \<open>(0, 0, 2, 2)\<close> of class 0 on a black 3 by 3 image turns the
  pixel at its corner \<open>(0, 0)\<close> into the colour of class 0 in the loaded image itself.
\<close>

theorem draw_boxes_overwrites_loaded_image:
  "draw_boxes [[[(0, 0, 0), (0, 0, 0), (0, 0, 0)],
                [(0, 0, 0), (0, 0, 0), (0, 0, 0)],
                [(0, 0, 0), (0, 0, 0), (0, 0, 0)]]] 0 [(0, 0, 2, 2, 0)] ! 0 ! 0 ! 0
     = (31, 119, 180) \<and>
   draw_boxes [[[(0, 0, 0), (0, 0, 0), (0, 0, 0)],
                [(0, 0, 0), (0, 0, 0), (0, 0, 0)],
                [(0, 0, 0), (0, 0, 0), (0, 0, 0)]]] 0 [(0, 0, 2, 2, 0)] ! 0
     \<noteq> [[[(0, 0, 0), (0, 0, 0), (0, 0, 0)],
          [(0, 0, 0), (0, 0, 0), (0, 0, 0)],
          [(0, 0, 0), (0, 0, 0), (0, 0, 0)]]] ! 0 \<and>
   process_image [[[(0, 0, 0), (0, 0, 0), (0, 0, 0)],
                   [(0, 0, 0), (0, 0, 0), (0, 0, 0)],
                   [(0, 0, 0), (0, 0, 0), (0, 0, 0)]]] 0
       [\<lparr>box_xyxy = (0, 0, 2, 2), box_conf = 9 / 10, box_cls = 0\<rparr>] ! 0 ! 0 ! 0
     = (31, 119, 180)"
  by (simp add: process_image_def all_boxes_def raw_boxes_def raw_box_def py_int_def
      deduplicate_boxes_def render_eval Let_def upt_rec [of 0] upt_rec [of 1] upt_rec [of 2])

text \<open>
  C9. A candidate whose confidence is strictly below the confidence threshold is not in
  what the pre-filter lets through, whatever its box: the list given to deduplication, and
  so the detections kept, are the same as if the engine had never produced it.
\<close>

theorem low_confidence_excluded_before_dedupe:
  assumes "box_conf c < confidenceThreshold"
  shows "c \<notin> set (confidence_prefilter confidenceThreshold candidates) \<and>
         confidence_prefilter confidenceThreshold (xs @ c # ys) =
           confidence_prefilter confidenceThreshold (xs @ ys) \<and>
         dedupe_input confidenceThreshold (xs @ c # ys) =
           dedupe_input confidenceThreshold (xs @ ys) \<and>
         kept_detections confidenceThreshold (xs @ c # ys) =
           kept_detections confidenceThreshold (xs @ ys)"
  using assms by (simp add: confidence_prefilter_def dedupe_input_def kept_detections_def)

theorem low_confidence_excluded_before_dedupe_witness:
  "box_conf \<lparr>box_xyxy = (0, 0, 900, 900), box_conf = 1 / 4, box_cls = 3\<rparr> < 3 / 10 \<and>
   \<lparr>box_xyxy = (0, 0, 900, 900), box_conf = 1 / 4, box_cls = 3\<rparr> \<notin>
     set (confidence_prefilter (3 / 10)
            [\<lparr>box_xyxy = (0, 0, 900, 900), box_conf = 1 / 4, box_cls = 3\<rparr>,
             \<lparr>box_xyxy = (10, 10, 110, 110), box_conf = 9 / 10, box_cls = 0\<rparr>]) \<and>
   dedupe_input (3 / 10)
     [\<lparr>box_xyxy = (0, 0, 900, 900), box_conf = 1 / 4, box_cls = 3\<rparr>,
      \<lparr>box_xyxy = (10, 10, 110, 110), box_conf = 9 / 10, box_cls = 0\<rparr>]
     = [(10, 10, 110, 110, 0)]"
proof -
  have h: "box_conf \<lparr>box_xyxy = (0, 0, 900, 900), box_conf = 1 / 4, box_cls = 3\<rparr> < 3 / 10"
    by simp
  note w = low_confidence_excluded_before_dedupe
             [OF h, where xs = "[]"
                and ys = "[\<lparr>box_xyxy = (10, 10, 110, 110), box_conf = 9 / 10, box_cls = 0\<rparr>]"
                and candidates = "[\<lparr>box_xyxy = (0, 0, 900, 900), box_conf = 1 / 4, box_cls = 3\<rparr>,
                   \<lparr>box_xyxy = (10, 10, 110, 110), box_conf = 9 / 10, box_cls = 0\<rparr>]"]
  from w have a: "\<lparr>box_xyxy = (0, 0, 900, 900), box_conf = 1 / 4, box_cls = 3\<rparr> \<notin>
     set (confidence_prefilter (3 / 10)
            [\<lparr>box_xyxy = (0, 0, 900, 900), box_conf = 1 / 4, box_cls = 3\<rparr>,
             \<lparr>box_xyxy = (10, 10, 110, 110), box_conf = 9 / 10, box_cls = 0\<rparr>])"
    by (rule conjunct1)
  have "dedupe_input (3 / 10)
          [\<lparr>box_xyxy = (10, 10, 110, 110), box_conf = 9 / 10, box_cls = 0\<rparr>]
        = [(10, 10, 110, 110, 0)]"
    by (simp add: dedupe_input_def confidence_prefilter_def raw_boxes_def raw_box_def py_int_def)
  with w have b: "dedupe_input (3 / 10)
     [\<lparr>box_xyxy = (0, 0, 900, 900), box_conf = 1 / 4, box_cls = 3\<rparr>,
      \<lparr>box_xyxy = (10, 10, 110, 110), box_conf = 9 / 10, box_cls = 0\<rparr>]
     = [(10, 10, 110, 110, 0)]"
    by simp
  show ?thesis
    by (intro conjI h a b)
qed

end
